theory Spec2Isabelle
  imports Main "HOL-Library.Word" "HOL-Library.Sublist"
begin

section \<open>The NH3 threshold monitor of the ULP coprocessor\<close>

text \<open>
  A shallow embedding of \<^verbatim>\<open>firmware/ulp/ulp_nh3_monitor.c\<close> (the sampling loop of
  \<^verbatim>\<open>main\<close>) and of \<^verbatim>\<open>firmware/ulp_nh3_component/ulp_exports.c\<close> (the export array).
\<close>

subsection \<open>Shared variables\<close>

type_synonym u32 = "32 word"

text \<open>
  The six \<^verbatim>\<open>volatile uint32_t\<close> globals of the monitor, one field each, under the
  names of the source.
\<close>

record ulp_vars =
  ulp_nh3_threshold_adc :: u32
  ulp_nh3_last_reading :: u32
  ulp_nh3_above_count :: u32
  ulp_nh3_confirm_count :: u32
  ulp_cycle_count :: u32
  ulp_stop_flag :: u32

text \<open>The initialisers of the six globals.\<close>

definition init_vars :: ulp_vars where
  "init_vars =
     \<lparr>ulp_nh3_threshold_adc = 1500,
      ulp_nh3_last_reading = 0,
      ulp_nh3_above_count = 0,
      ulp_nh3_confirm_count = 3,
      ulp_cycle_count = 0,
      ulp_stop_flag = 0\<rparr>"

definition SAMPLE_INTERVAL_US :: nat where
  "SAMPLE_INTERVAL_US = 200 * 1000"

subsection \<open>Effects and the environment\<close>

text \<open>
  The calls the program makes into the platform library, in the order it makes them.
  \<open>Adc_read_channel raw\<close> is a call of \<^verbatim>\<open>ulp_riscv_adc_read_channel\<close> that returned the
  \<^verbatim>\<open>int32_t\<close> with the bits \<open>raw\<close> (read as a signed number by \<open>sint\<close>; the cast
  \<^verbatim>\<open>(uint32_t)raw\<close> keeps the bits). \<open>Delay_us n\<close> is the call
  \<^verbatim>\<open>ulp_riscv_delay_cycles(SAMPLE_INTERVAL_US * ULP_RISCV_CYCLES_PER_US)\<close>, recorded by its
  length in microseconds: the factor \<^verbatim>\<open>ULP_RISCV_CYCLES_PER_US\<close> belongs to the platform
  header. \<open>Wakeup_main_processor\<close> is \<^verbatim>\<open>ulp_riscv_wakeup_main_processor()\<close> and \<open>Halt\<close> is
  \<^verbatim>\<open>ulp_riscv_halt()\<close>, which does not return: the program ends there.
\<close>

datatype effect =
    Adc_read_channel u32
  | Delay_us nat
  | Wakeup_main_processor
  | Halt

datatype status = Running | Halted

text \<open>What a stretch of execution did: its calls, the variables after it, and whether it halted.\<close>

record run =
  trace :: "effect list"
  vars :: ulp_vars
  status :: status

text \<open>
  The host processor reads every shared variable and writes three of them. Each of the three
  is read at most once per loop iteration and no two reads are of the same variable, so a
  write that lands in the middle of an iteration acts as a write just before or just after
  it; the model therefore places host writes between iterations.
\<close>

datatype host_write =
    Set_threshold_adc u32
  | Set_confirm_count u32
  | Set_stop_flag u32

fun host_store :: "host_write \<Rightarrow> ulp_vars \<Rightarrow> ulp_vars" where
  "host_store (Set_threshold_adc v) s = s\<lparr>ulp_nh3_threshold_adc := v\<rparr>"
| "host_store (Set_confirm_count v) s = s\<lparr>ulp_nh3_confirm_count := v\<rparr>"
| "host_store (Set_stop_flag v) s = s\<lparr>ulp_stop_flag := v\<rparr>"

text \<open>
  What the environment does, in order. \<open>Sample raw\<close>: the program arrives at the loop
  condition, and the converter would answer \<open>raw\<close> to a read. \<open>Host w\<close>: the host writes
  a shared variable while the program is between two evaluations of the loop condition.
\<close>

datatype input = Sample u32 | Host host_write

subsection \<open>The sampling loop\<close>

text \<open>
  One pass through the body of \<^verbatim>\<open>while (!ulp_stop_flag) { ... }\<close> with the read returning
  \<open>raw\<close>, statement by statement.
\<close>

definition loop_body :: "u32 \<Rightarrow> ulp_vars \<Rightarrow> run" where
  "loop_body raw s =
     (if sint raw < 0 then
        \<lparr>trace = [Adc_read_channel raw, Delay_us SAMPLE_INTERVAL_US], vars = s, status = Running\<rparr>
      else
        let s1 = s\<lparr>ulp_nh3_last_reading := raw\<rparr>;
            s2 = s1\<lparr>ulp_cycle_count := ulp_cycle_count s1 + 1\<rparr>
        in if ulp_nh3_threshold_adc s2 \<le> raw then
             let s3 = s2\<lparr>ulp_nh3_above_count := ulp_nh3_above_count s2 + 1\<rparr>
             in if ulp_nh3_confirm_count s3 \<le> ulp_nh3_above_count s3 then
                  \<lparr>trace = [Adc_read_channel raw, Wakeup_main_processor, Halt],
                   vars = s3, status = Halted\<rparr>
                else
                  \<lparr>trace = [Adc_read_channel raw, Delay_us SAMPLE_INTERVAL_US],
                   vars = s3, status = Running\<rparr>
           else
             \<lparr>trace = [Adc_read_channel raw, Delay_us SAMPLE_INTERVAL_US],
              vars = s2\<lparr>ulp_nh3_above_count := 0\<rparr>, status = Running\<rparr>)"

text \<open>
  \<^verbatim>\<open>main\<close> against a finite stretch of environment. The loop has no bound of its own, so
  the input list is what limits the run: when it is used up and the program has not halted,
  the result has status \<open>Running\<close>.
\<close>

fun main :: "ulp_vars \<Rightarrow> input list \<Rightarrow> run" where
  "main s [] = \<lparr>trace = [], vars = s, status = Running\<rparr>"
| "main s (Host w # ins) = main (host_store w s) ins"
| "main s (Sample raw # ins) =
     (if ulp_stop_flag s \<noteq> 0 then \<lparr>trace = [Halt], vars = s, status = Halted\<rparr>
      else
        let b = loop_body raw s
        in case status b of
             Halted \<Rightarrow> b
           | Running \<Rightarrow> (let r = main (vars b) ins in r\<lparr>trace := trace b @ trace r\<rparr>))"

text \<open>The values of the successful reads in a trace, oldest first.\<close>

fun readings :: "effect list \<Rightarrow> u32 list" where
  "readings [] = []"
| "readings (Adc_read_channel raw # tr) =
     (if 0 \<le> sint raw then raw # readings tr else readings tr)"
| "readings (e # tr) = readings tr"

subsection \<open>Runs of consecutive readings\<close>

text \<open>
  The wording of the specification, "\<open>n\<close> consecutive readings at or above the threshold
  have occurred", as a predicate on the list of readings: some contiguous stretch of the list
  has length \<open>n\<close> and consists of readings that satisfy \<open>P\<close>. It is not taken from the
  code, which keeps a counter instead.
\<close>

definition has_run :: "nat \<Rightarrow> ('a \<Rightarrow> bool) \<Rightarrow> 'a list \<Rightarrow> bool" where
  "has_run n P xs = list_ex (\<lambda>ys. length ys = n \<and> list_all P ys) (sublists xs)"

text \<open>The number of readings at the end of the list that satisfy \<open>P\<close> without a gap.\<close>

definition trail :: "('a \<Rightarrow> bool) \<Rightarrow> 'a list \<Rightarrow> nat" where
  "trail P xs = length (takeWhile P (rev xs))"

text \<open>Inputs that leave the threshold and the confirm count as they are.\<close>

fun keeps_settings :: "input \<Rightarrow> bool" where
  "keeps_settings (Host (Set_threshold_adc v)) = False"
| "keeps_settings (Host (Set_confirm_count v)) = False"
| "keeps_settings _ = True"

text \<open>Inputs that leave the confirm count as it is.\<close>

fun keeps_confirm_count :: "input \<Rightarrow> bool" where
  "keeps_confirm_count (Host (Set_confirm_count v)) = False"
| "keeps_confirm_count _ = True"

text \<open>The trace of a stretch of reads that are each followed by one delay of a sample interval.\<close>

definition delayed_reads :: "u32 list \<Rightarrow> effect list" where
  "delayed_reads fs = concat (map (\<lambda>raw. [Adc_read_channel raw, Delay_us SAMPLE_INTERVAL_US]) fs)"

text \<open>
  The successful readings of a run, oldest first, each paired with the threshold that was in
  force when the program compared it. The recursion is that of \<open>main\<close>; the first components
  are the \<open>readings\<close> of the trace of the run.
\<close>

fun taken :: "ulp_vars \<Rightarrow> input list \<Rightarrow> (u32 \<times> u32) list" where
  "taken s [] = []"
| "taken s (Host w # ins) = taken (host_store w s) ins"
| "taken s (Sample raw # ins) =
     (if ulp_stop_flag s \<noteq> 0 then []
      else
        (if 0 \<le> sint raw then [(raw, ulp_nh3_threshold_adc s)] else []) @
        (case status (loop_body raw s) of
           Halted \<Rightarrow> []
         | Running \<Rightarrow> taken (vars (loop_body raw s)) ins))"

text \<open>A reading, paired with a threshold, that is at or above it.\<close>

fun at_or_above :: "u32 \<times> u32 \<Rightarrow> bool" where
  "at_or_above (raw, threshold) = (threshold \<le> raw)"

text \<open>The values that the reads of a trace returned, failed reads included, oldest first.\<close>

fun reads :: "effect list \<Rightarrow> u32 list" where
  "reads [] = []"
| "reads (Adc_read_channel raw # tr) = raw # reads tr"
| "reads (e # tr) = reads tr"

text \<open>The values that the environment holds ready for the reads, in order.\<close>

fun offered :: "input list \<Rightarrow> u32 list" where
  "offered [] = []"
| "offered (Sample raw # ins) = raw # offered ins"
| "offered (Host w # ins) = offered ins"

text \<open>Inputs that do not set the stop flag.\<close>

fun keeps_stop_clear :: "input \<Rightarrow> bool" where
  "keeps_stop_clear (Host (Set_stop_flag v)) = (v = 0)"
| "keeps_stop_clear _ = True"

subsection \<open>The export array\<close>

text \<open>
  The identifiers of the six globals that \<^verbatim>\<open>ulp_nh3_monitor.c\<close> defines, in the order of
  their definitions.
\<close>

definition shared_variables :: "string list" where
  "shared_variables =
     [''ulp_nh3_threshold_adc'', ''ulp_nh3_last_reading'', ''ulp_nh3_above_count'',
      ''ulp_nh3_confirm_count'', ''ulp_cycle_count'', ''ulp_stop_flag'']"

text \<open>
  The array \<^verbatim>\<open>petfilter_ulp_symbols\<close> of \<^verbatim>\<open>ulp_exports.c\<close>, by the identifier whose
  address each element takes, in the order of the initialiser.
\<close>

definition petfilter_ulp_symbols :: "string list" where
  "petfilter_ulp_symbols =
     [''ulp_ulp_nh3_threshold_adc'', ''ulp_ulp_nh3_last_reading'', ''ulp_ulp_nh3_above_count'',
      ''ulp_ulp_nh3_confirm_count'', ''ulp_ulp_cycle_count'', ''ulp_ulp_stop_flag'']"

text \<open>
  Modelled from the spec: the header \<^verbatim>\<open>ulp_nh3_monitor.h\<close>, which declares the names
  that the export array refers to, is generated by the build of the coprocessor binary and is
  not among the sources. The "fixed naming convention" of the specification is that the host
  sees a global of the coprocessor program under its name with \<^verbatim>\<open>ulp_\<close> in front.
\<close>

definition exported_name :: "string \<Rightarrow> string" where
  "exported_name v = ''ulp_'' @ v"

section \<open>Auxiliary facts\<close>

subsection \<open>One iteration, and runs put together\<close>

lemma main_append:
  "main s (xs @ ys) =
     (case status (main s xs) of
        Halted \<Rightarrow> main s xs
      | Running \<Rightarrow> (let r = main (vars (main s xs)) ys in r\<lparr>trace := trace (main s xs) @ trace r\<rparr>))"
proof (induction s xs rule: main.induct)
  case (1 s)
  then show ?case by simp
next
  case (2 s w ins)
  then show ?case by (simp split: status.splits)
next
  case (3 s raw ins)
  then show ?case
    by (simp add: Let_def split: status.splits)
qed

lemma loop_body_fail:
  "sint raw < 0 \<Longrightarrow>
   loop_body raw s =
     \<lparr>trace = [Adc_read_channel raw, Delay_us SAMPLE_INTERVAL_US], vars = s, status = Running\<rparr>"
  by (simp add: loop_body_def)

lemma loop_body_below:
  "0 \<le> sint raw \<Longrightarrow> raw < ulp_nh3_threshold_adc s \<Longrightarrow>
   loop_body raw s =
     \<lparr>trace = [Adc_read_channel raw, Delay_us SAMPLE_INTERVAL_US],
      vars = s\<lparr>ulp_nh3_last_reading := raw, ulp_cycle_count := ulp_cycle_count s + 1,
               ulp_nh3_above_count := 0\<rparr>,
      status = Running\<rparr>"
  by (simp add: loop_body_def Let_def)

lemma loop_body_wake:
  "0 \<le> sint raw \<Longrightarrow> ulp_nh3_threshold_adc s \<le> raw \<Longrightarrow>
   ulp_nh3_confirm_count s \<le> ulp_nh3_above_count s + 1 \<Longrightarrow>
   loop_body raw s =
     \<lparr>trace = [Adc_read_channel raw, Wakeup_main_processor, Halt],
      vars = s\<lparr>ulp_nh3_last_reading := raw, ulp_cycle_count := ulp_cycle_count s + 1,
               ulp_nh3_above_count := ulp_nh3_above_count s + 1\<rparr>,
      status = Halted\<rparr>"
  by (simp add: loop_body_def Let_def)

lemma loop_body_count:
  "0 \<le> sint raw \<Longrightarrow> ulp_nh3_threshold_adc s \<le> raw \<Longrightarrow>
   ulp_nh3_above_count s + 1 < ulp_nh3_confirm_count s \<Longrightarrow>
   loop_body raw s =
     \<lparr>trace = [Adc_read_channel raw, Delay_us SAMPLE_INTERVAL_US],
      vars = s\<lparr>ulp_nh3_last_reading := raw, ulp_cycle_count := ulp_cycle_count s + 1,
               ulp_nh3_above_count := ulp_nh3_above_count s + 1\<rparr>,
      status = Running\<rparr>"
  by (simp add: loop_body_def Let_def)

lemma loop_body_cases:
  obtains (fail) "sint raw < 0"
  | (below) "0 \<le> sint raw" "raw < ulp_nh3_threshold_adc s"
  | (wake) "0 \<le> sint raw" "ulp_nh3_threshold_adc s \<le> raw"
      "ulp_nh3_confirm_count s \<le> ulp_nh3_above_count s + 1"
  | (count) "0 \<le> sint raw" "ulp_nh3_threshold_adc s \<le> raw"
      "ulp_nh3_above_count s + 1 < ulp_nh3_confirm_count s"
  by (meson not_le)

lemma loop_body_Halted:
  "status (loop_body raw s) = Halted \<Longrightarrow>
   0 \<le> sint raw \<and> ulp_nh3_threshold_adc s \<le> raw \<and>
   ulp_nh3_confirm_count s \<le> ulp_nh3_above_count s + 1 \<and>
   trace (loop_body raw s) = [Adc_read_channel raw, Wakeup_main_processor, Halt]"
  by (cases rule: loop_body_cases [where raw = raw and s = s])
    (simp_all add: loop_body_fail loop_body_below loop_body_wake loop_body_count)

lemma loop_body_Running:
  "status (loop_body raw s) = Running \<Longrightarrow>
   Wakeup_main_processor \<notin> set (trace (loop_body raw s)) \<and>
   ulp_stop_flag (vars (loop_body raw s)) = ulp_stop_flag s"
  by (cases rule: loop_body_cases [where raw = raw and s = s])
    (simp_all add: loop_body_fail loop_body_below loop_body_wake loop_body_count)

lemma readings_append: "readings (xs @ ys) = readings xs @ readings ys"
  by (induction xs rule: readings.induct) simp_all

lemma readings_loop_body:
  "readings (trace (loop_body raw s)) = (if sint raw < 0 then [] else [raw])"
  by (simp add: loop_body_def Let_def)

lemma main_Sample_run:
  "ulp_stop_flag s = 0 \<Longrightarrow> status (loop_body raw s) = Running \<Longrightarrow>
   main s (Sample raw # ins) =
     (main (vars (loop_body raw s)) ins)
       \<lparr>trace := trace (loop_body raw s) @ trace (main (vars (loop_body raw s)) ins)\<rparr>"
  by (simp add: Let_def)

lemma main_Sample_halt:
  "ulp_stop_flag s = 0 \<Longrightarrow> status (loop_body raw s) = Halted \<Longrightarrow>
   main s (Sample raw # ins) = loop_body raw s"
  by (simp add: Let_def)

lemma main_Sample_stop:
  "ulp_stop_flag s \<noteq> 0 \<Longrightarrow>
   main s (Sample raw # ins) = \<lparr>trace = [Halt], vars = s, status = Halted\<rparr>"
  by simp

lemma cycle_count_loop_body:
  "ulp_cycle_count (vars (loop_body raw s)) =
     (if sint raw < 0 then ulp_cycle_count s else ulp_cycle_count s + 1)"
  by (simp add: loop_body_def Let_def)

lemma cycle_count_host_store: "ulp_cycle_count (host_store w s) = ulp_cycle_count s"
  by (cases w) simp_all

lemma cycle_count_main:
  "ulp_cycle_count (vars (main s ins)) =
     ulp_cycle_count s + of_nat (length (readings (trace (main s ins))))"
proof (induction s ins rule: main.induct)
  case (1 s)
  show ?case by simp
next
  case (2 s w ins)
  then show ?case by (simp add: cycle_count_host_store)
next
  case (3 s raw ins)
  show ?case
  proof (cases "ulp_stop_flag s = 0")
    case False
    then show ?thesis by simp
  next
    case stop: True
    show ?thesis
    proof (cases "status (loop_body raw s)")
      case Halted
      then show ?thesis
        using stop by (simp add: main_Sample_halt cycle_count_loop_body readings_loop_body del: main.simps)
    next
      case Running
      with stop have "ulp_cycle_count (vars (main (vars (loop_body raw s)) ins)) =
          ulp_cycle_count (vars (loop_body raw s)) +
          of_nat (length (readings (trace (main (vars (loop_body raw s)) ins))))"
        using "3.IH" by simp
      then show ?thesis
        using stop Running
        by (simp add: main_Sample_run cycle_count_loop_body readings_append readings_loop_body
            del: main.simps)
    qed
  qed
qed


subsection \<open>Runs of consecutive readings and machine words\<close>

lemma has_run_sublist: "has_run n P xs \<longleftrightarrow> (\<exists>ys. sublist ys xs \<and> length ys = n \<and> list_all P ys)"
  by (auto simp: has_run_def list_ex_iff)

lemma suffix_run: "(\<exists>ys. suffix ys zs \<and> length ys = n \<and> list_all P ys) \<longleftrightarrow> n \<le> trail P zs"
proof
  assume "\<exists>ys. suffix ys zs \<and> length ys = n \<and> list_all P ys"
  then obtain ys ps where zs: "zs = ps @ ys" and n: "length ys = n" and P: "list_all P ys"
    by (auto simp: suffix_def)
  have "takeWhile P (rev zs) = rev ys @ takeWhile P (rev ps)"
    using P takeWhile_append2 [of "rev ys" P "rev ps"] by (simp add: zs list_all_iff)
  then show "n \<le> trail P zs"
    by (simp add: trail_def n)
next
  assume le: "n \<le> trail P zs"
  define ys where "ys = rev (take n (takeWhile P (rev zs)))"
  have "prefix (take n (takeWhile P (rev zs))) (rev zs)"
    by (metis prefix_order.order_trans take_is_prefix takeWhile_is_prefix)
  then have "suffix ys zs"
    by (simp add: ys_def suffix_to_prefix)
  moreover have "length ys = n"
    using le by (simp add: ys_def trail_def)
  moreover have "list_all P ys"
    by (auto simp: ys_def list_all_iff dest!: in_set_takeD dest: set_takeWhileD)
  ultimately show "\<exists>ys. suffix ys zs \<and> length ys = n \<and> list_all P ys"
    by blast
qed

lemma has_run_snoc: "has_run n P (xs @ [x]) \<longleftrightarrow> has_run n P xs \<or> n \<le> trail P (xs @ [x])"
  unfolding has_run_sublist suffix_run [symmetric] sublist_snoc by blast

lemma trail_snoc: "trail P (xs @ [x]) = (if P x then Suc (trail P xs) else 0)"
  by (simp add: trail_def)

lemma has_run_Nil: "has_run n P [] \<longleftrightarrow> n = 0"
  by (auto simp: has_run_def)

lemma unat_inc: "a \<noteq> - 1 \<Longrightarrow> unat (a + 1 :: u32) = Suc (unat a)"
proof -
  assume "a \<noteq> - 1"
  then have "1 + a \<noteq> 0"
    by (simp add: add_eq_0_iff)
  then show ?thesis
    using unatSuc [of a] by (simp add: add.commute)
qed

lemma nonneg_bound: "0 \<le> sint (raw :: u32) \<Longrightarrow> uint raw < 2 ^ 31"
proof (rule ccontr)
  assume nn: "0 \<le> sint raw" and "\<not> uint raw < 2 ^ 31"
  then have "2 ^ 31 \<le> uint raw"
    by linarith
  from signed_take_bit_int_less_eq [OF this]
  have "signed_take_bit 31 (uint raw) \<le> uint raw - 2 ^ 32" by simp
  moreover have "uint raw < 2 ^ 32"
    using uint_lt2p [of raw] by simp
  ultimately have "signed_take_bit 31 (uint raw) < 0"
    by linarith
  then have "sint raw < 0"
    by (simp add: sint_uint)
  with nn show False by simp
qed

text \<open>The facts that evaluate a run on concrete inputs.\<close>

lemmas run_eval = init_vars_def loop_body_def Let_def has_run_def word_le_nat_alt word_less_nat_alt

subsection \<open>The wake signal and the readings\<close>

lemma keeps_settings_host:
  "keeps_settings (Host w) \<Longrightarrow>
   ulp_nh3_threshold_adc (host_store w s) = ulp_nh3_threshold_adc s \<and>
   ulp_nh3_confirm_count (host_store w s) = ulp_nh3_confirm_count s \<and>
   ulp_nh3_above_count (host_store w s) = ulp_nh3_above_count s"
  by (cases w) simp_all

lemma keeps_confirm_count_host:
  "keeps_confirm_count (Host w) \<Longrightarrow>
   ulp_nh3_confirm_count (host_store w s) = ulp_nh3_confirm_count s"
  by (cases w) simp_all

lemma trail_snoc_yes: "P x \<Longrightarrow> trail P (xs @ [x]) = Suc (trail P xs)"
  by (simp add: trail_def)

lemma trail_snoc_no: "\<not> P x \<Longrightarrow> trail P (xs @ [x]) = 0"
  by (simp add: trail_def)

lemma wake_iff_run_from:
  assumes "list_all keeps_settings ins"
    and "unat (ulp_nh3_above_count s) = trail (\<lambda>r. ulp_nh3_threshold_adc s \<le> r) hs"
    and "ulp_nh3_above_count s < ulp_nh3_confirm_count s"
    and "\<not> has_run (unat (ulp_nh3_confirm_count s)) (\<lambda>r. ulp_nh3_threshold_adc s \<le> r) hs"
  shows "Wakeup_main_processor \<in> set (trace (main s ins)) \<longleftrightarrow>
         has_run (unat (ulp_nh3_confirm_count s)) (\<lambda>r. ulp_nh3_threshold_adc s \<le> r)
           (hs @ readings (trace (main s ins)))"
  using assms
proof (induction s ins arbitrary: hs rule: main.induct)
  case (1 s)
  then show ?case by simp
next
  case (2 s w ins)
  from "2.prems"(1) have k: "keeps_settings (Host w)" and rest: "list_all keeps_settings ins"
    by simp_all
  note eqs = keeps_settings_host [OF k, where s = s]
  show ?case
    using "2.IH" [of hs] rest "2.prems"(2-4) by (simp add: eqs)
next
  case (3 s raw ins)
  let ?P = "\<lambda>r. ulp_nh3_threshold_adc s \<le> r"
  let ?n = "unat (ulp_nh3_confirm_count s)"
  from "3.prems"(1) have rest: "list_all keeps_settings ins" by simp
  have nomax: "ulp_nh3_above_count s \<noteq> - 1"
    using "3.prems"(3) by (metis word_order.extremum_strict)
  have inc: "unat (ulp_nh3_above_count s + 1) = Suc (trail ?P hs)"
    using unat_inc [OF nomax] "3.prems"(2) by simp
  have npos: "0 < ?n"
    using "3.prems"(3) by (simp add: word_less_nat_alt)
  have cpos: "0 < ulp_nh3_confirm_count s"
    using npos by (simp add: word_less_nat_alt)
  show ?case
  proof (cases "ulp_stop_flag s = 0")
    case False
    then show ?thesis using "3.prems"(4) by simp
  next
    case stop: True
    show ?thesis
    proof (cases rule: loop_body_cases [where raw = raw and s = s])
      case fail
      note b = loop_body_fail [OF fail, of s]
      have "Wakeup_main_processor \<in> set (trace (main s ins)) \<longleftrightarrow>
            has_run ?n ?P (hs @ readings (trace (main s ins)))"
        using "3.IH" [of "loop_body raw s" hs] stop rest "3.prems"(2-4) by (simp add: b)
      then show ?thesis
        using stop fail by (simp add: main_Sample_run b readings_append del: main.simps)
    next
      case below
      note b = loop_body_below [OF below]
      have t0: "trail ?P (hs @ [raw]) = 0"
        by (rule trail_snoc_no) (use below(2) in \<open>simp add: not_le\<close>)
      have nr: "\<not> has_run ?n ?P (hs @ [raw])"
        using "3.prems"(4) npos by (simp add: has_run_snoc t0)
      have "Wakeup_main_processor \<in> set (trace (main (vars (loop_body raw s)) ins)) \<longleftrightarrow>
            has_run ?n ?P ((hs @ [raw]) @ readings (trace (main (vars (loop_body raw s)) ins)))"
        using "3.IH" [of "loop_body raw s" "hs @ [raw]"] stop rest cpos nr
        by (simp add: b t0)
      then show ?thesis
        using stop below(1) by (simp add: main_Sample_run b readings_append del: main.simps)
    next
      case wake
      note b = loop_body_wake [OF wake]
      have t1: "trail ?P (hs @ [raw]) = Suc (trail ?P hs)"
        by (rule trail_snoc_yes) (rule wake(2))
      have "?n \<le> unat (ulp_nh3_above_count s + 1)"
        using wake(3) by (simp only: word_le_nat_alt)
      then have "?n \<le> trail ?P (hs @ [raw])"
        by (simp only: t1 inc)
      then have "has_run ?n ?P (hs @ [raw])"
        by (simp add: has_run_snoc)
      then show ?thesis
        using stop wake(1) by (simp add: main_Sample_halt b del: main.simps)
    next
      case count
      note b = loop_body_count [OF count]
      have t1: "trail ?P (hs @ [raw]) = Suc (trail ?P hs)"
        by (rule trail_snoc_yes) (rule count(2))
      have "unat (ulp_nh3_above_count s + 1) < ?n"
        using count(3) by (simp only: word_less_nat_alt)
      then have lt: "trail ?P (hs @ [raw]) < ?n"
        by (simp only: t1 inc)
      have nr: "\<not> has_run ?n ?P (hs @ [raw])"
        using "3.prems"(4) lt by (simp add: has_run_snoc not_le)
      have "Wakeup_main_processor \<in> set (trace (main (vars (loop_body raw s)) ins)) \<longleftrightarrow>
            has_run ?n ?P ((hs @ [raw]) @ readings (trace (main (vars (loop_body raw s)) ins)))"
        using "3.IH" [of "loop_body raw s" "hs @ [raw]"] stop rest count(3) nr inc
        by (simp add: b t1)
      then show ?thesis
        using stop count(1) by (simp add: main_Sample_run b readings_append del: main.simps)
    qed
  qed
qed


lemma halted_absorbs: "status (main s ins) = Halted \<Longrightarrow> main s (ins @ rest) = main s ins"
  by (simp add: main_append)

lemma wake_ends_run:
  "Wakeup_main_processor \<in> set (trace (main s ins)) \<Longrightarrow>
   status (main s ins) = Halted \<and>
   (\<exists>tr0 raw. trace (main s ins) = tr0 @ [Adc_read_channel raw, Wakeup_main_processor, Halt] \<and>
      Wakeup_main_processor \<notin> set tr0 \<and> 0 \<le> sint raw \<and>
      ulp_nh3_last_reading (vars (main s ins)) = raw)"
proof (induction s ins rule: main.induct)
  case (1 s)
  then show ?case by simp
next
  case (2 s w ins)
  then show ?case by simp
next
  case (3 s raw ins)
  show ?case
  proof (cases "ulp_stop_flag s = 0")
    case False
    with "3.prems" show ?thesis by simp
  next
    case stop: True
    show ?thesis
    proof (cases rule: loop_body_cases [where raw = raw and s = s])
      case fail
      note b = loop_body_fail [OF fail, where s = s]
      from "3.prems" have "Wakeup_main_processor \<in> set (trace (main s ins))"
        using stop by (simp add: main_Sample_run b del: main.simps)
      with "3.IH" [of "loop_body raw s"] stop obtain tr0 r where
        "status (main s ins) = Halted"
        "trace (main s ins) = tr0 @ [Adc_read_channel r, Wakeup_main_processor, Halt]"
        "Wakeup_main_processor \<notin> set tr0" "0 \<le> sint r"
        "ulp_nh3_last_reading (vars (main s ins)) = r"
        by (auto simp: b)
      then show ?thesis
        using stop
        by (simp add: main_Sample_run b del: main.simps)
    next
      case below
      note b = loop_body_below [OF below]
      from "3.prems" have "Wakeup_main_processor \<in> set (trace (main (vars (loop_body raw s)) ins))"
        using stop by (simp add: main_Sample_run b del: main.simps)
      with "3.IH" [of "loop_body raw s"] stop obtain tr0 r where
        "status (main (vars (loop_body raw s)) ins) = Halted"
        "trace (main (vars (loop_body raw s)) ins) =
           tr0 @ [Adc_read_channel r, Wakeup_main_processor, Halt]"
        "Wakeup_main_processor \<notin> set tr0" "0 \<le> sint r"
        "ulp_nh3_last_reading (vars (main (vars (loop_body raw s)) ins)) = r"
        by (auto simp: b)
      then show ?thesis
        using stop
        by (simp add: main_Sample_run b del: main.simps)
    next
      case wake
      note b = loop_body_wake [OF wake]
      show ?thesis
        using stop wake(1) by (simp add: main_Sample_halt b del: main.simps)
    next
      case count
      note b = loop_body_count [OF count]
      from "3.prems" have "Wakeup_main_processor \<in> set (trace (main (vars (loop_body raw s)) ins))"
        using stop by (simp add: main_Sample_run b del: main.simps)
      with "3.IH" [of "loop_body raw s"] stop obtain tr0 r where
        "status (main (vars (loop_body raw s)) ins) = Halted"
        "trace (main (vars (loop_body raw s)) ins) =
           tr0 @ [Adc_read_channel r, Wakeup_main_processor, Halt]"
        "Wakeup_main_processor \<notin> set tr0" "0 \<le> sint r"
        "ulp_nh3_last_reading (vars (main (vars (loop_body raw s)) ins)) = r"
        by (auto simp: b)
      then show ?thesis
        using stop
        by (simp add: main_Sample_run b del: main.simps)
    qed
  qed
qed

subsection \<open>The consecutive-above counter\<close>

lemma above_count_host_store:
  "ulp_nh3_above_count (host_store w s) = ulp_nh3_above_count s"
  by (cases w) simp_all

lemma above_count_loop_body:
  "ulp_nh3_above_count (vars (loop_body raw s)) =
     (if sint raw < 0 then ulp_nh3_above_count s
      else if raw < ulp_nh3_threshold_adc s then 0
      else ulp_nh3_above_count s + 1)"
  by (auto simp: loop_body_def Let_def)

text \<open>While the program runs, the counter stays below the largest 32-bit number.\<close>

lemma above_count_not_max:
  "ulp_nh3_above_count s \<noteq> - 1 \<Longrightarrow> status (main s ins) = Running \<Longrightarrow>
   ulp_nh3_above_count (vars (main s ins)) \<noteq> - 1"
proof (induction s ins rule: main.induct)
  case (1 s)
  then show ?case by simp
next
  case (2 s w ins)
  then show ?case by (simp add: above_count_host_store)
next
  case (3 s raw ins)
  show ?case
  proof (cases "ulp_stop_flag s = 0")
    case False
    with "3.prems" show ?thesis by simp
  next
    case stop: True
    show ?thesis
    proof (cases "status (loop_body raw s)")
      case Halted
      with "3.prems"(2) stop show ?thesis
        by (simp add: main_Sample_halt del: main.simps)
    next
      case Running
      have "ulp_nh3_above_count (vars (loop_body raw s)) \<noteq> - 1"
      proof (cases rule: loop_body_cases [where raw = raw and s = s])
        case fail
        then show ?thesis using "3.prems"(1) by (simp add: loop_body_fail)
      next
        case below
        then show ?thesis by (simp add: loop_body_below)
      next
        case wake
        then show ?thesis using Running by (simp add: loop_body_wake)
      next
        case count
        then have "ulp_nh3_above_count s + 1 \<noteq> - 1"
          by (metis word_order.extremum_strict)
        with count show ?thesis by (simp add: loop_body_count)
      qed
      moreover have "status (main (vars (loop_body raw s)) ins) = Running"
        using "3.prems"(2) stop Running by (simp add: main_Sample_run del: main.simps)
      ultimately have "ulp_nh3_above_count (vars (main (vars (loop_body raw s)) ins)) \<noteq> - 1"
        using "3.IH" [of "loop_body raw s"] stop Running by simp
      then show ?thesis
        using stop Running by (simp add: main_Sample_run del: main.simps)
    qed
  qed
qed

lemma main_snoc_Sample:
  "status (main s pre) = Running \<Longrightarrow> ulp_stop_flag (vars (main s pre)) = 0 \<Longrightarrow>
   main s (pre @ [Sample raw]) =
     (loop_body raw (vars (main s pre)))
       \<lparr>trace := trace (main s pre) @ trace (loop_body raw (vars (main s pre)))\<rparr>"
  by (simp add: main_append Let_def split: status.splits)

lemma main_snoc_Host:
  "status (main s pre) = Running \<Longrightarrow>
   main s (pre @ [Host w]) =
     \<lparr>trace = trace (main s pre), vars = host_store w (vars (main s pre)), status = Running\<rparr>"
  by (simp add: main_append Let_def)

section \<open>The claims\<close>

subsection \<open>C1: when the wake signal fires\<close>

lemma taken_readings: "map fst (taken s ins) = readings (trace (main s ins))"
proof (induction s ins rule: main.induct)
  case (1 s)
  show ?case by simp
next
  case (2 s w ins)
  then show ?case by simp
next
  case (3 s raw ins)
  show ?case
  proof (cases "ulp_stop_flag s = 0")
    case False
    then show ?thesis by simp
  next
    case stop: True
    show ?thesis
    proof (cases "status (loop_body raw s)")
      case Halted
      then show ?thesis
        using stop by (simp add: main_Sample_halt readings_loop_body del: main.simps)
    next
      case Running
      with stop have "map fst (taken (vars (loop_body raw s)) ins) =
          readings (trace (main (vars (loop_body raw s)) ins))"
        using "3.IH" by simp
      then show ?thesis
        using stop Running
        by (simp add: main_Sample_run readings_append readings_loop_body del: main.simps)
    qed
  qed
qed

lemma wake_iff_taken_from:
  assumes "list_all keeps_confirm_count ins"
    and "unat (ulp_nh3_above_count s) = trail at_or_above hs"
    and "ulp_nh3_above_count s < ulp_nh3_confirm_count s"
    and "\<not> has_run (unat (ulp_nh3_confirm_count s)) at_or_above hs"
  shows "Wakeup_main_processor \<in> set (trace (main s ins)) \<longleftrightarrow>
         has_run (unat (ulp_nh3_confirm_count s)) at_or_above (hs @ taken s ins)"
  using assms
proof (induction s ins arbitrary: hs rule: main.induct)
  case (1 s)
  then show ?case by simp
next
  case (2 s w ins)
  from "2.prems"(1) have k: "keeps_confirm_count (Host w)"
    and rest: "list_all keeps_confirm_count ins"
    by simp_all
  note c = keeps_confirm_count_host [OF k, where s = s]
  note a = above_count_host_store [of w s]
  show ?case
    using "2.IH" [of hs] rest "2.prems"(2-4) by (simp add: c a)
next
  case (3 s raw ins)
  let ?n = "unat (ulp_nh3_confirm_count s)"
  let ?x = "(raw, ulp_nh3_threshold_adc s)"
  from "3.prems"(1) have rest: "list_all keeps_confirm_count ins" by simp
  have nomax: "ulp_nh3_above_count s \<noteq> - 1"
    using "3.prems"(3) by (metis word_order.extremum_strict)
  have inc: "unat (ulp_nh3_above_count s + 1) = Suc (trail at_or_above hs)"
    using unat_inc [OF nomax] "3.prems"(2) by simp
  have npos: "0 < ?n"
    using "3.prems"(3) by (simp add: word_less_nat_alt)
  have cpos: "0 < ulp_nh3_confirm_count s"
    using npos by (simp add: word_less_nat_alt)
  show ?case
  proof (cases "ulp_stop_flag s = 0")
    case False
    then show ?thesis using "3.prems"(4) by simp
  next
    case stop: True
    show ?thesis
    proof (cases rule: loop_body_cases [where raw = raw and s = s])
      case fail
      note b = loop_body_fail [OF fail, where s = s]
      have "Wakeup_main_processor \<in> set (trace (main s ins)) \<longleftrightarrow>
            has_run ?n at_or_above (hs @ taken s ins)"
        using "3.IH" [of "loop_body raw s" hs] stop rest "3.prems"(2-4) by (simp add: b)
      then show ?thesis
        using stop fail by (simp add: main_Sample_run b del: main.simps)
    next
      case below
      note b = loop_body_below [OF below]
      have t0: "trail at_or_above (hs @ [?x]) = 0"
        by (rule trail_snoc_no) (use below(2) in \<open>simp add: not_le\<close>)
      have nr: "\<not> has_run ?n at_or_above (hs @ [?x])"
        using "3.prems"(4) npos by (simp add: has_run_snoc t0)
      have "Wakeup_main_processor \<in> set (trace (main (vars (loop_body raw s)) ins)) \<longleftrightarrow>
            has_run ?n at_or_above ((hs @ [?x]) @ taken (vars (loop_body raw s)) ins)"
        using "3.IH" [of "loop_body raw s" "hs @ [?x]"] stop rest cpos nr
        by (simp add: b t0)
      then show ?thesis
        using stop below(1) by (simp add: main_Sample_run b del: main.simps)
    next
      case wake
      note b = loop_body_wake [OF wake]
      have t1: "trail at_or_above (hs @ [?x]) = Suc (trail at_or_above hs)"
        by (rule trail_snoc_yes) (use wake(2) in simp)
      have "?n \<le> unat (ulp_nh3_above_count s + 1)"
        using wake(3) by (simp only: word_le_nat_alt)
      then have "?n \<le> trail at_or_above (hs @ [?x])"
        by (simp only: t1 inc)
      then have "has_run ?n at_or_above (hs @ [?x])"
        by (simp add: has_run_snoc)
      then show ?thesis
        using stop wake(1) by (simp add: main_Sample_halt b del: main.simps)
    next
      case count
      note b = loop_body_count [OF count]
      have t1: "trail at_or_above (hs @ [?x]) = Suc (trail at_or_above hs)"
        by (rule trail_snoc_yes) (use count(2) in simp)
      have "unat (ulp_nh3_above_count s + 1) < ?n"
        using count(3) by (simp only: word_less_nat_alt)
      then have lt: "trail at_or_above (hs @ [?x]) < ?n"
        by (simp only: t1 inc)
      have nr: "\<not> has_run ?n at_or_above (hs @ [?x])"
        using "3.prems"(4) lt by (simp add: has_run_snoc not_le)
      have "Wakeup_main_processor \<in> set (trace (main (vars (loop_body raw s)) ins)) \<longleftrightarrow>
            has_run ?n at_or_above ((hs @ [?x]) @ taken (vars (loop_body raw s)) ins)"
        using "3.IH" [of "loop_body raw s" "hs @ [?x]"] stop rest count(3) nr inc
        by (simp add: b t1)
      then show ?thesis
        using stop count(1) by (simp add: main_Sample_run b del: main.simps)
    qed
  qed
qed

text \<open>
  C1, as amended. Let a run start with the consecutive-above counter at zero and with a
  confirm count of at least one, and let the host leave the confirm count alone during the
  run (it may write the threshold and the stop flag). Then the program calls
  \<^verbatim>\<open>ulp_riscv_wakeup_main_processor\<close> if and only if the successful readings it has taken
  contain \<open>confirm_count\<close> consecutive readings at or above the threshold, each reading
  compared with the threshold in force when it was read, and a reading equal to the
  threshold counting as above. When the host leaves the threshold alone too, this is the
  same with every reading compared with the one threshold. When the program signals, the
  call follows the read that completed the stretch and is followed by the halt, and whatever
  the environment offers afterwards changes nothing: no further sample is taken.
\<close>

theorem wake_iff_confirm_count_consecutive:
  assumes "ulp_nh3_above_count s = 0"
    and "ulp_nh3_confirm_count s \<noteq> 0"
    and "list_all keeps_confirm_count ins"
  shows "(Wakeup_main_processor \<in> set (trace (main s ins)) \<longleftrightarrow>
          has_run (unat (ulp_nh3_confirm_count s)) at_or_above (taken s ins)) \<and>
         map fst (taken s ins) = readings (trace (main s ins)) \<and>
         (list_all keeps_settings ins \<longrightarrow>
          (Wakeup_main_processor \<in> set (trace (main s ins)) \<longleftrightarrow>
           has_run (unat (ulp_nh3_confirm_count s)) (\<lambda>raw. ulp_nh3_threshold_adc s \<le> raw)
             (readings (trace (main s ins))))) \<and>
         (Wakeup_main_processor \<in> set (trace (main s ins)) \<longrightarrow>
          (\<exists>tr0 raw. trace (main s ins) =
             tr0 @ [Adc_read_channel raw, Wakeup_main_processor, Halt]) \<and>
          main s (ins @ rest) = main s ins)"
proof -
  have pos: "ulp_nh3_above_count s < ulp_nh3_confirm_count s"
    using assms(1,2) by (simp add: word_gt_0)
  have "\<not> has_run (unat (ulp_nh3_confirm_count s)) at_or_above []"
    using assms(2) by (simp add: has_run_Nil unat_eq_0)
  from wake_iff_taken_from [OF assms(3) _ pos this]
  have iff: "Wakeup_main_processor \<in> set (trace (main s ins)) \<longleftrightarrow>
          has_run (unat (ulp_nh3_confirm_count s)) at_or_above (taken s ins)"
    using assms(1) by (simp add: trail_def)
  have fixed: "Wakeup_main_processor \<in> set (trace (main s ins)) \<longleftrightarrow>
           has_run (unat (ulp_nh3_confirm_count s)) (\<lambda>raw. ulp_nh3_threshold_adc s \<le> raw)
             (readings (trace (main s ins)))"
    if keeps: "list_all keeps_settings ins"
  proof -
    have "\<not> has_run (unat (ulp_nh3_confirm_count s)) (\<lambda>raw. ulp_nh3_threshold_adc s \<le> raw) []"
      using assms(2) by (simp add: has_run_Nil unat_eq_0)
    from wake_iff_run_from [OF keeps _ pos this] show ?thesis
      using assms(1) by (simp add: trail_def)
  qed
  show ?thesis
    using iff fixed taken_readings [of s ins] wake_ends_run [of s ins]
      halted_absorbs [of s ins rest]
    by blast
qed

text \<open>
  Two instances, from the initial variables (threshold 1500, confirm count 3). A reading of
  1400 is below the threshold; the host then lowers the threshold to 1000, and the readings
  1000, 1200 and 1000, with a failed read among them, wake the host; a further sample is not
  taken. With the threshold left alone, the readings 1500, 1501 and 1500 wake the host.
\<close>

theorem wake_iff_confirm_count_consecutive_witness:
  "taken init_vars
     [Sample 1400, Host (Set_threshold_adc 1000), Sample 1000, Sample (- 1), Sample 1200,
      Sample 1000] =
     [(1400, 1500), (1000, 1000), (1200, 1000), (1000, 1000)] \<and>
   has_run 3 at_or_above
     (taken init_vars
        [Sample 1400, Host (Set_threshold_adc 1000), Sample 1000, Sample (- 1), Sample 1200,
         Sample 1000]) \<and>
   main init_vars
     ([Sample 1400, Host (Set_threshold_adc 1000), Sample 1000, Sample (- 1), Sample 1200,
       Sample 1000] @ [Sample 9]) =
   main init_vars
     [Sample 1400, Host (Set_threshold_adc 1000), Sample 1000, Sample (- 1), Sample 1200,
      Sample 1000] \<and>
   has_run 3 ((\<le>) (1500 :: u32))
     (readings (trace (main init_vars
        [Sample 1500, Sample (- 1), Sample 1501, Host (Set_stop_flag 0), Sample 1500])))"
  using wake_iff_confirm_count_consecutive [of init_vars
      "[Sample 1400, Host (Set_threshold_adc 1000), Sample 1000, Sample (- 1), Sample 1200,
        Sample 1000]" "[Sample 9]"]
    wake_iff_confirm_count_consecutive [of init_vars
      "[Sample 1500, Sample (- 1), Sample 1501, Host (Set_stop_flag 0), Sample 1500]" "[]"]
  by (simp add: run_eval)

text \<open>
  C1 as it is written has no proviso on the confirm count, and fails when the host has set
  it to zero: after one reading below the threshold the empty stretch of zero consecutive
  readings has occurred, and the program has not signalled. It also fails when the host
  lowers the confirm count during the run: after two readings of 1500 the host sets it to 2
  and a reading of 0 follows; two consecutive readings at or above the threshold have
  occurred, and the program has not signalled.
\<close>

theorem wake_iff_counterexample:
  "\<not> (Wakeup_main_processor
        \<in> set (trace (main init_vars [Host (Set_confirm_count 0), Sample 100])) \<longleftrightarrow>
      has_run (unat (ulp_nh3_confirm_count
                 (vars (main init_vars [Host (Set_confirm_count 0), Sample 100]))))
        ((\<le>) (ulp_nh3_threshold_adc
                 (vars (main init_vars [Host (Set_confirm_count 0), Sample 100]))))
        (readings (trace (main init_vars [Host (Set_confirm_count 0), Sample 100])))) \<and>
   \<not> (Wakeup_main_processor
        \<in> set (trace (main init_vars
             [Sample 1500, Sample 1500, Host (Set_confirm_count 2), Sample 0])) \<longleftrightarrow>
      has_run (unat (ulp_nh3_confirm_count
                 (vars (main init_vars
                    [Sample 1500, Sample 1500, Host (Set_confirm_count 2), Sample 0]))))
        ((\<le>) (ulp_nh3_threshold_adc
                 (vars (main init_vars
                    [Sample 1500, Sample 1500, Host (Set_confirm_count 2), Sample 0]))))
        (readings (trace (main init_vars
           [Sample 1500, Sample 1500, Host (Set_confirm_count 2), Sample 0]))))"
  by (simp add: run_eval)

subsection \<open>C2: the consecutive-above counter\<close>

text \<open>
  C2. Take any run that has not halted and whose stop flag is clear, so that a further
  iteration starts. After that iteration the consecutive-above counter is zero if the read
  succeeded with a value strictly below the threshold, is one more than before if the read
  succeeded with a value at or above the threshold, and is what it was if the read failed;
  a write of the host does not touch it. So the counter is reset by every below-threshold
  reading and grows only on readings at or above the threshold, in every iteration of every
  run. In a run that started with the counter at zero the addition of one does not wrap
  around.
\<close>

theorem above_count_resets_and_increments:
  assumes "status (main s pre) = Running"
    and "ulp_stop_flag (vars (main s pre)) = 0"
  shows "ulp_nh3_above_count (vars (main s (pre @ [Sample raw]))) =
           (if sint raw < 0 then ulp_nh3_above_count (vars (main s pre))
            else if raw < ulp_nh3_threshold_adc (vars (main s pre)) then 0
            else ulp_nh3_above_count (vars (main s pre)) + 1) \<and>
         ulp_nh3_above_count (vars (main s (pre @ [Host w]))) =
           ulp_nh3_above_count (vars (main s pre)) \<and>
         (ulp_nh3_above_count s = 0 \<longrightarrow>
            unat (ulp_nh3_above_count (vars (main s pre)) + 1) =
            unat (ulp_nh3_above_count (vars (main s pre))) + 1)"
proof (intro conjI impI)
  show "ulp_nh3_above_count (vars (main s (pre @ [Sample raw]))) =
           (if sint raw < 0 then ulp_nh3_above_count (vars (main s pre))
            else if raw < ulp_nh3_threshold_adc (vars (main s pre)) then 0
            else ulp_nh3_above_count (vars (main s pre)) + 1)"
    by (simp only: main_snoc_Sample [OF assms]) (simp add: above_count_loop_body)
  show "ulp_nh3_above_count (vars (main s (pre @ [Host w]))) =
           ulp_nh3_above_count (vars (main s pre))"
    by (simp only: main_snoc_Host [OF assms(1)]) (simp add: above_count_host_store)
  assume "ulp_nh3_above_count s = 0"
  then have "ulp_nh3_above_count s \<noteq> - 1" by simp
  from above_count_not_max [OF this assms(1)]
  show "unat (ulp_nh3_above_count (vars (main s pre)) + 1) =
            unat (ulp_nh3_above_count (vars (main s pre))) + 1"
    by (simp add: unat_inc)
qed

text \<open>
  An instance, from the initial variables: after the readings 1600 and 1500 the counter is
  2; a reading of 1499 then resets it to zero.
\<close>

theorem above_count_resets_and_increments_witness:
  "ulp_nh3_above_count (vars (main init_vars [Sample 1600, Sample 1500])) = 2 \<and>
   ulp_nh3_above_count (vars (main init_vars ([Sample 1600, Sample 1500] @ [Sample 1499]))) = 0"
  using above_count_resets_and_increments [of init_vars "[Sample 1600, Sample 1500]" 1499]
  by (simp add: run_eval)

subsection \<open>C3: the cycle counter counts the successful reads\<close>

text \<open>
  C3. An iteration whose read fails leaves \<^verbatim>\<open>ulp_cycle_count\<close> as it was and an iteration
  whose read succeeds adds one to it; over a whole run, whatever the inputs, the counter has
  grown by the number of successful reads of the run (as a 32-bit unsigned number).
\<close>

theorem cycle_count_once_per_successful_read:
  "ulp_cycle_count (vars (loop_body raw s)) =
     (if sint raw < 0 then ulp_cycle_count s else ulp_cycle_count s + 1) \<and>
   ulp_cycle_count (vars (main s ins)) =
     ulp_cycle_count s + of_nat (length (readings (trace (main s ins))))"
  by (rule conjI) (rule cycle_count_loop_body, rule cycle_count_main)

text \<open>An instance: two successful reads and one failed read from the initial variables.\<close>

theorem cycle_count_once_per_successful_read_witness:
  "ulp_cycle_count (vars (main init_vars [Sample 5, Sample (- 3), Host (Set_threshold_adc 7), Sample 2000])) = 2"
  using cycle_count_once_per_successful_read [of 5 init_vars
      "[Sample 5, Sample (- 3), Host (Set_threshold_adc 7), Sample 2000]"]
  by (simp add: run_eval)

subsection \<open>C4: a failed read is retried\<close>

lemma main_failed_reads:
  "\<forall>raw\<in>set fs. sint raw < 0 \<Longrightarrow> ulp_stop_flag s = 0 \<Longrightarrow>
   main s (map Sample fs @ ins) = (main s ins)\<lparr>trace := delayed_reads fs @ trace (main s ins)\<rparr>"
proof (induction fs)
  case Nil
  then show ?case by (simp add: delayed_reads_def)
next
  case (Cons f fs)
  then have f: "sint f < 0" by simp
  note b = loop_body_fail [OF f, where s = s]
  have "main s (Sample f # map Sample fs @ ins) =
        (main s (map Sample fs @ ins))
          \<lparr>trace := [Adc_read_channel f, Delay_us SAMPLE_INTERVAL_US] @
                     trace (main s (map Sample fs @ ins))\<rparr>"
    using Cons.prems(2) main_Sample_run [of s f "map Sample fs @ ins"] by (simp add: b del: main.simps)
  then show ?case
    using Cons by (simp add: delayed_reads_def del: main.simps)
qed

text \<open>
  C4. When \<^verbatim>\<open>ulp_riscv_adc_read_channel\<close> returns a negative number, the iteration delays
  for one sample interval and leaves all six shared variables as they were, and the program
  keeps running. After any number of failed reads in a row the program is where it was
  before them: it goes on with the rest of the input exactly as it would have without them.
\<close>

theorem read_failure_retries:
  assumes "\<forall>raw\<in>set fs. sint raw < 0"
    and "ulp_stop_flag s = 0"
  shows "(\<forall>raw\<in>set fs. loop_body raw s =
            \<lparr>trace = [Adc_read_channel raw, Delay_us SAMPLE_INTERVAL_US], vars = s,
             status = Running\<rparr>) \<and>
         main s (map Sample fs) = \<lparr>trace = delayed_reads fs, vars = s, status = Running\<rparr> \<and>
         main s (map Sample fs @ ins) =
           (main s ins)\<lparr>trace := delayed_reads fs @ trace (main s ins)\<rparr>"
  using assms main_failed_reads [of fs s ins] main_failed_reads [of fs s "[]"]
  by (simp add: loop_body_fail)

text \<open>An instance: two failed reads, then a successful one, from the initial variables.\<close>

theorem read_failure_retries_witness:
  "main init_vars [Sample (- 1), Sample (- 7), Sample 1600] =
     \<lparr>trace = [Adc_read_channel (- 1), Delay_us 200000, Adc_read_channel (- 7), Delay_us 200000,
               Adc_read_channel 1600, Delay_us 200000],
      vars = init_vars\<lparr>ulp_nh3_last_reading := 1600, ulp_cycle_count := 1,
                        ulp_nh3_above_count := 1\<rparr>,
      status = Running\<rparr>"
  using read_failure_retries [of "[- 1, - 7]" init_vars "[Sample 1600]"]
  by (simp add: run_eval delayed_reads_def SAMPLE_INTERVAL_US_def)

subsection \<open>C5: the loop runs until the stop flag is set\<close>

lemma main_host_writes: "main s (map Host ws @ ins) = main (fold host_store ws s) ins"
  by (induction ws arbitrary: s) simp_all

lemma stop_flag_not_cleared:
  "ulp_stop_flag s \<noteq> 0 \<Longrightarrow> Set_stop_flag 0 \<notin> set ws \<Longrightarrow>
   ulp_stop_flag (fold host_store ws s) \<noteq> 0"
proof (induction ws arbitrary: s)
  case Nil
  then show ?case by simp
next
  case (Cons w ws)
  then have "ulp_stop_flag (host_store w s) \<noteq> 0"
    by (cases w) auto
  with Cons show ?case by simp
qed

lemma reads_append: "reads (xs @ ys) = reads xs @ reads ys"
  by (induction xs rule: reads.induct) simp_all

lemma reads_loop_body: "reads (trace (loop_body raw s)) = [raw]"
  by (simp add: loop_body_def Let_def)

lemma keeps_stop_clear_host:
  "keeps_stop_clear (Host w) \<Longrightarrow> ulp_stop_flag s = 0 \<Longrightarrow> ulp_stop_flag (host_store w s) = 0"
  by (cases w) simp_all

text \<open>With the stop flag clear throughout and no wake signal, every value offered is read.\<close>

lemma run_with_stop_clear:
  "ulp_stop_flag s = 0 \<Longrightarrow> list_all keeps_stop_clear ins \<Longrightarrow>
   Wakeup_main_processor \<notin> set (trace (main s ins)) \<Longrightarrow>
   status (main s ins) = Running \<and> reads (trace (main s ins)) = offered ins"
proof (induction s ins rule: main.induct)
  case (1 s)
  then show ?case by simp
next
  case (2 s w ins)
  from "2.prems"(2) have k: "keeps_stop_clear (Host w)" and rest: "list_all keeps_stop_clear ins"
    by simp_all
  have "ulp_stop_flag (host_store w s) = 0"
    using k "2.prems"(1) by (rule keeps_stop_clear_host)
  with "2.IH" rest "2.prems"(3) show ?case by simp
next
  case (3 s raw ins)
  from "3.prems"(2) have rest: "list_all keeps_stop_clear ins" by simp
  note stop = "3.prems"(1)
  show ?case
  proof (cases "status (loop_body raw s)")
    case Halted
    from loop_body_Halted [OF Halted] "3.prems"(3) stop Halted show ?thesis
      by (simp add: main_Sample_halt del: main.simps)
  next
    case Running
    note run = main_Sample_run [OF stop Running]
    note quiet = loop_body_Running [OF Running]
    have "Wakeup_main_processor \<notin> set (trace (main (vars (loop_body raw s)) ins))"
      using "3.prems"(3) by (simp add: run del: main.simps)
    with "3.IH" [of "loop_body raw s"] stop Running rest quiet
    have "status (main (vars (loop_body raw s)) ins) = Running \<and>
          reads (trace (main (vars (loop_body raw s)) ins)) = offered ins"
      by simp
    then show ?thesis
      by (simp add: run reads_append reads_loop_body del: main.simps)
  qed
qed

text \<open>A run that has halted without a wake signal has halted on the stop flag.\<close>

lemma halted_on_stop_flag:
  "status (main s ins) = Halted \<Longrightarrow> Wakeup_main_processor \<notin> set (trace (main s ins)) \<Longrightarrow>
   ulp_stop_flag (vars (main s ins)) \<noteq> 0 \<and> (\<exists>tr0. trace (main s ins) = tr0 @ [Halt])"
proof (induction s ins rule: main.induct)
  case (1 s)
  then show ?case by simp
next
  case (2 s w ins)
  then show ?case by simp
next
  case (3 s raw ins)
  show ?case
  proof (cases "ulp_stop_flag s = 0")
    case False
    then show ?thesis by simp
  next
    case stop: True
    show ?thesis
    proof (cases "status (loop_body raw s)")
      case Halted
      from loop_body_Halted [OF Halted] "3.prems"(2) stop Halted show ?thesis
        by (simp add: main_Sample_halt del: main.simps)
    next
      case Running
      note run = main_Sample_run [OF stop Running]
      have "status (main (vars (loop_body raw s)) ins) = Halted"
        and "Wakeup_main_processor \<notin> set (trace (main (vars (loop_body raw s)) ins))"
        using "3.prems" by (simp_all add: run del: main.simps)
      with "3.IH" [of "loop_body raw s"] stop Running obtain tr0 where
        "ulp_stop_flag (vars (main (vars (loop_body raw s)) ins)) \<noteq> 0"
        "trace (main (vars (loop_body raw s)) ins) = tr0 @ [Halt]"
        by auto
      then show ?thesis
        by (simp add: run del: main.simps)
    qed
  qed
qed

lemma main_stop_at:
  assumes "status (main s pre) = Running"
    and "ulp_stop_flag (vars (main s pre)) \<noteq> 0"
    and "Set_stop_flag 0 \<notin> set ws"
  shows "main s (pre @ map Host ws @ Sample raw # ins) =
           \<lparr>trace = trace (main s pre) @ [Halt],
            vars = fold host_store ws (vars (main s pre)), status = Halted\<rparr>"
proof -
  have "ulp_stop_flag (fold host_store ws (vars (main s pre))) \<noteq> 0"
    using assms(2,3) by (rule stop_flag_not_cleared)
  then have "main (vars (main s pre)) (map Host ws @ Sample raw # ins) =
      \<lparr>trace = [Halt], vars = fold host_store ws (vars (main s pre)), status = Halted\<rparr>"
    by (simp add: main_host_writes)
  then show ?thesis
    using assms(1) by (simp add: main_append [of s pre] del: main.simps)
qed

lemma main_continue_at:
  assumes "status (main s pre) = Running"
    and "ulp_stop_flag (vars (main s pre)) = 0"
    and "status (loop_body raw (vars (main s pre))) = Running"
  shows "main s (pre @ Sample raw # ins) =
           (main (vars (loop_body raw (vars (main s pre)))) ins)
             \<lparr>trace := trace (main s pre) @ trace (loop_body raw (vars (main s pre))) @
                        trace (main (vars (loop_body raw (vars (main s pre)))) ins)\<rparr>"
  using assms(1) main_Sample_run [OF assms(2,3), of ins]
  by (simp add: main_append [of s pre] del: main.simps)

text \<open>
  C5. When \<^verbatim>\<open>ulp_stop_flag\<close> is zero as the program arrives at the loop condition, the
  body runs: the sensor is read. When it is nonzero, and the host writes to the shared
  variables in the meantime do not write zero to it, the program halts at the loop condition:
  it reads no sensor value and changes no shared variable (the variables are what the host
  made of them), and the rest of the input is not looked at. Both hold at the start and at
  any later point of a run that has not halted: with the flag clear the next iteration is
  carried out in full, and unless it signals the wake the program is back at the loop
  condition for the inputs that follow; with the flag set the run ends there with the halt.
  A run in which the flag stays clear and no wake is signalled reads every value offered and
  is still running at the end; a run that has halted without a wake signal has halted on a
  set stop flag.
\<close>

theorem loop_runs_until_stop_flag:
  "(ulp_stop_flag s = 0 \<longrightarrow>
      (\<exists>es. trace (main s (Sample raw # ins)) = Adc_read_channel raw # es)) \<and>
   (ulp_stop_flag s \<noteq> 0 \<and> Set_stop_flag 0 \<notin> set ws \<longrightarrow>
      main s (map Host ws @ Sample raw # ins) =
        \<lparr>trace = [Halt], vars = fold host_store ws s, status = Halted\<rparr>) \<and>
   (status (main s pre) = Running \<and> ulp_stop_flag (vars (main s pre)) = 0 \<longrightarrow>
      main s (pre @ [Sample raw]) =
        (loop_body raw (vars (main s pre)))
          \<lparr>trace := trace (main s pre) @ trace (loop_body raw (vars (main s pre)))\<rparr> \<and>
      (status (loop_body raw (vars (main s pre))) = Running \<longrightarrow>
         main s (pre @ Sample raw # ins) =
           (main (vars (loop_body raw (vars (main s pre)))) ins)
             \<lparr>trace := trace (main s pre) @ trace (loop_body raw (vars (main s pre))) @
                        trace (main (vars (loop_body raw (vars (main s pre)))) ins)\<rparr>)) \<and>
   (status (main s pre) = Running \<and> ulp_stop_flag (vars (main s pre)) \<noteq> 0 \<and>
    Set_stop_flag 0 \<notin> set ws \<longrightarrow>
      main s (pre @ map Host ws @ Sample raw # ins) =
        \<lparr>trace = trace (main s pre) @ [Halt],
         vars = fold host_store ws (vars (main s pre)), status = Halted\<rparr>) \<and>
   (ulp_stop_flag s = 0 \<and> list_all keeps_stop_clear ins \<and>
    Wakeup_main_processor \<notin> set (trace (main s ins)) \<longrightarrow>
      status (main s ins) = Running \<and> reads (trace (main s ins)) = offered ins) \<and>
   (status (main s ins) = Halted \<and> Wakeup_main_processor \<notin> set (trace (main s ins)) \<longrightarrow>
      ulp_stop_flag (vars (main s ins)) \<noteq> 0 \<and> (\<exists>tr0. trace (main s ins) = tr0 @ [Halt]))"
proof (intro conjI impI)
  assume "ulp_stop_flag s = 0"
  then show "\<exists>es. trace (main s (Sample raw # ins)) = Adc_read_channel raw # es"
    by (cases rule: loop_body_cases [where raw = raw and s = s])
      (simp_all add: loop_body_fail loop_body_below loop_body_wake loop_body_count Let_def)
next
  assume "ulp_stop_flag s \<noteq> 0 \<and> Set_stop_flag 0 \<notin> set ws"
  then have "ulp_stop_flag (fold host_store ws s) \<noteq> 0"
    by (simp add: stop_flag_not_cleared)
  then show "main s (map Host ws @ Sample raw # ins) =
        \<lparr>trace = [Halt], vars = fold host_store ws s, status = Halted\<rparr>"
    by (simp add: main_host_writes)
next
  assume a: "status (main s pre) = Running \<and> ulp_stop_flag (vars (main s pre)) = 0"
  then show "main s (pre @ [Sample raw]) =
        (loop_body raw (vars (main s pre)))
          \<lparr>trace := trace (main s pre) @ trace (loop_body raw (vars (main s pre)))\<rparr>"
    by (simp add: main_snoc_Sample del: main.simps)
  assume "status (loop_body raw (vars (main s pre))) = Running"
  with a show "main s (pre @ Sample raw # ins) =
           (main (vars (loop_body raw (vars (main s pre)))) ins)
             \<lparr>trace := trace (main s pre) @ trace (loop_body raw (vars (main s pre))) @
                        trace (main (vars (loop_body raw (vars (main s pre)))) ins)\<rparr>"
    by (simp add: main_continue_at del: main.simps)
next
  assume "status (main s pre) = Running \<and> ulp_stop_flag (vars (main s pre)) \<noteq> 0 \<and>
    Set_stop_flag 0 \<notin> set ws"
  then show "main s (pre @ map Host ws @ Sample raw # ins) =
        \<lparr>trace = trace (main s pre) @ [Halt],
         vars = fold host_store ws (vars (main s pre)), status = Halted\<rparr>"
    by (simp add: main_stop_at del: main.simps)
next
  assume a: "ulp_stop_flag s = 0 \<and> list_all keeps_stop_clear ins \<and>
    Wakeup_main_processor \<notin> set (trace (main s ins))"
  then show "status (main s ins) = Running" and "reads (trace (main s ins)) = offered ins"
    using run_with_stop_clear [of s ins] by simp_all
next
  assume a: "status (main s ins) = Halted \<and> Wakeup_main_processor \<notin> set (trace (main s ins))"
  then show "ulp_stop_flag (vars (main s ins)) \<noteq> 0" and "\<exists>tr0. trace (main s ins) = tr0 @ [Halt]"
    using halted_on_stop_flag [of s ins] by simp_all
qed

text \<open>
  Instances, from the initial variables. With the flag clear the first sample is read; with
  the flag at 1, rewritten to 2 by the host, the program halts without a read. After a
  reading of 12 the program is running with the flag clear, and a reading of 13 is taken in
  the second iteration; four values offered with the flag clear are all read. Once the host
  has set the flag after the first reading, the second value is not read and the run halts.
\<close>

theorem loop_runs_until_stop_flag_witness:
  "(\<exists>es. trace (main init_vars [Sample 12, Sample 13]) = Adc_read_channel 12 # es) \<and>
   main (init_vars\<lparr>ulp_stop_flag := 1\<rparr>)
     [Host (Set_threshold_adc 0), Host (Set_stop_flag 2), Sample 1600, Sample 1600] =
     \<lparr>trace = [Halt],
      vars = init_vars\<lparr>ulp_nh3_threshold_adc := 0, ulp_stop_flag := 2\<rparr>,
      status = Halted\<rparr> \<and>
   trace (main init_vars ([Sample 12] @ [Sample 13])) =
     [Adc_read_channel 12, Delay_us SAMPLE_INTERVAL_US,
      Adc_read_channel 13, Delay_us SAMPLE_INTERVAL_US] \<and>
   reads (trace (main init_vars [Sample 12, Sample (- 1), Sample 1600, Sample 13])) =
     [12, - 1, 1600, 13] \<and>
   status (main init_vars [Sample 12, Sample (- 1), Sample 1600, Sample 13]) = Running \<and>
   trace (main init_vars ([Sample 12, Host (Set_stop_flag 1)] @ map Host [] @ Sample 13 # [Sample 14])) =
     [Adc_read_channel 12, Delay_us SAMPLE_INTERVAL_US, Halt] \<and>
   ulp_stop_flag (vars (main init_vars [Sample 12, Host (Set_stop_flag 1), Sample 13])) \<noteq> 0"
  using loop_runs_until_stop_flag [of init_vars 12 "[Sample 13]" "[]" "[]"]
    loop_runs_until_stop_flag [of "init_vars\<lparr>ulp_stop_flag := 1\<rparr>"
      1600 "[Sample 1600]" "[Set_threshold_adc 0, Set_stop_flag 2]" "[]"]
    loop_runs_until_stop_flag [of init_vars 13 "[]" "[]" "[Sample 12]"]
    loop_runs_until_stop_flag [of init_vars 13
      "[Sample 12, Sample (- 1), Sample 1600, Sample 13]" "[]" "[]"]
    loop_runs_until_stop_flag [of init_vars 13 "[Sample 14]" "[]"
      "[Sample 12, Host (Set_stop_flag 1)]"]
    loop_runs_until_stop_flag [of init_vars 13
      "[Sample 12, Host (Set_stop_flag 1), Sample 13]" "[]" "[]"]
  by (simp add: run_eval)

subsection \<open>C6: the cycle counter and the wrap-around\<close>

lemma main_below_readings:
  "0 < ulp_nh3_threshold_adc s \<Longrightarrow> ulp_stop_flag s = 0 \<Longrightarrow>
   status (main s (replicate n (Sample 0))) = Running \<and>
   ulp_cycle_count (vars (main s (replicate n (Sample 0)))) = ulp_cycle_count s + of_nat n"
proof (induction n arbitrary: s)
  case 0
  then show ?case by simp
next
  case (Suc n)
  have nn: "0 \<le> sint (0 :: u32)" by simp
  note b = loop_body_below [OF nn Suc.prems(1)]
  have st: "status (loop_body 0 s) = Running" by (simp add: b)
  have "status (main (vars (loop_body 0 s)) (replicate n (Sample 0))) = Running \<and>
        ulp_cycle_count (vars (main (vars (loop_body 0 s)) (replicate n (Sample 0)))) =
          ulp_cycle_count (vars (loop_body 0 s)) + of_nat n"
    by (rule Suc.IH) (use Suc.prems in \<open>simp_all add: b\<close>)
  then show ?case
    using main_Sample_run [OF Suc.prems(2) st, of "replicate n (Sample 0)"]
    by (simp add: b del: main.simps)
qed

lemma cycle_count_no_wrap:
  assumes "unat (ulp_cycle_count s) + length (readings (trace (main s ins))) < 2 ^ 32"
  shows "unat (ulp_cycle_count (vars (main s ins))) =
         unat (ulp_cycle_count s) + length (readings (trace (main s ins)))"
proof -
  have "unat (ulp_cycle_count s + of_nat (length (readings (trace (main s ins))))) =
        unat (ulp_cycle_count s) + length (readings (trace (main s ins)))"
    using assms by (simp add: unat_word_ariths unat_of_nat)
  then show ?thesis
    by (simp only: cycle_count_main [symmetric])
qed

text \<open>
  C6, as amended. An iteration leaves \<^verbatim>\<open>ulp_cycle_count\<close> unchanged or adds one to it
  modulo \<open>2\<^sup>3\<^sup>2\<close>. It therefore does not decrease in an iteration that starts with the counter
  below \<open>2\<^sup>3\<^sup>2 - 1\<close>, and it does not decrease over a run for which the starting value plus
  the number of successful reads stays below \<open>2\<^sup>3\<^sup>2\<close>; a successful read at \<open>2\<^sup>3\<^sup>2 - 1\<close>
  takes it to zero.
\<close>

theorem cycle_count_monotonic_until_wrap:
  "(ulp_cycle_count (vars (loop_body raw s)) = ulp_cycle_count s \<or>
    ulp_cycle_count (vars (loop_body raw s)) = ulp_cycle_count s + 1) \<and>
   (ulp_cycle_count s \<noteq> - 1 \<longrightarrow>
      ulp_cycle_count s \<le> ulp_cycle_count (vars (loop_body raw s))) \<and>
   (ulp_cycle_count s = - 1 \<and> 0 \<le> sint raw \<longrightarrow>
      ulp_cycle_count (vars (loop_body raw s)) = 0) \<and>
   (unat (ulp_cycle_count s) + length (readings (trace (main s ins))) < 2 ^ 32 \<longrightarrow>
      ulp_cycle_count s \<le> ulp_cycle_count (vars (main s ins)))"
proof (intro conjI impI)
  show "ulp_cycle_count (vars (loop_body raw s)) = ulp_cycle_count s \<or>
    ulp_cycle_count (vars (loop_body raw s)) = ulp_cycle_count s + 1"
    by (simp add: cycle_count_loop_body)
  show "ulp_cycle_count s \<le> ulp_cycle_count (vars (loop_body raw s))"
    if "ulp_cycle_count s \<noteq> - 1"
    using unat_inc [OF that] by (simp add: cycle_count_loop_body word_le_nat_alt)
  show "ulp_cycle_count (vars (loop_body raw s)) = 0"
    if "ulp_cycle_count s = - 1 \<and> 0 \<le> sint raw"
    using that by (simp add: cycle_count_loop_body)
  show "ulp_cycle_count s \<le> ulp_cycle_count (vars (main s ins))"
    if "unat (ulp_cycle_count s) + length (readings (trace (main s ins))) < 2 ^ 32"
    using cycle_count_no_wrap [OF that] by (simp add: word_le_nat_alt)
qed

text \<open>
  An instance: three successful reads from the initial variables take the counter from 0
  to 3.
\<close>

theorem cycle_count_monotonic_until_wrap_witness:
  "ulp_cycle_count init_vars \<le> ulp_cycle_count (vars (loop_body 7 init_vars)) \<and>
   ulp_cycle_count (vars (loop_body 7 (init_vars\<lparr>ulp_cycle_count := - 1\<rparr>))) = 0 \<and>
   ulp_cycle_count init_vars
     \<le> ulp_cycle_count (vars (main init_vars [Sample 7, Sample (- 1), Sample 8, Sample 9]))"
  using cycle_count_monotonic_until_wrap [of 7 init_vars
      "[Sample 7, Sample (- 1), Sample 8, Sample 9]"]
    cycle_count_monotonic_until_wrap [of 7 "init_vars\<lparr>ulp_cycle_count := - 1\<rparr>" "[]"]
  by (simp add: run_eval)

text \<open>
  C6 as it is written fails at the wrap-around. From the initial variables,
  \<open>2\<^sup>3\<^sup>2 - 1 = 4294967295\<close> successful readings of 0 (below the threshold 1500, so the
  program keeps running) bring the counter to 4294967295, and one more reading takes it to 0.
\<close>

theorem cycle_count_wraps_counterexample:
  "status (main init_vars (replicate 4294967295 (Sample 0))) = Running \<and>
   ulp_cycle_count (vars (main init_vars (replicate 4294967295 (Sample 0)))) = 4294967295 \<and>
   ulp_cycle_count (vars (main init_vars (replicate 4294967296 (Sample 0)))) = 0 \<and>
   \<not> ulp_cycle_count (vars (main init_vars (replicate 4294967295 (Sample 0))))
       \<le> ulp_cycle_count (vars (main init_vars (replicate 4294967296 (Sample 0))))"
proof -
  have thr: "0 < ulp_nh3_threshold_adc init_vars" and stop: "ulp_stop_flag init_vars = 0"
    and c0: "ulp_cycle_count init_vars = 0"
    by (simp_all add: init_vars_def)
  have a: "(of_nat 4294967295 :: u32) = 4294967295" and b: "(of_nat 4294967296 :: u32) = 0"
    by simp_all
  have c: "\<not> (4294967295 :: u32) \<le> 0"
    by simp
  show ?thesis
    using main_below_readings [OF thr stop, of 4294967295]
      main_below_readings [OF thr stop, of 4294967296]
    by (simp only: c0 a b c add_0_left simp_thms)
qed

subsection \<open>C7: the exported variables\<close>

text \<open>
  C7. The monitor defines exactly six shared variables, all different, each under a name that
  starts with \<^verbatim>\<open>ulp_\<close>; the export array has exactly six elements, all different, and they
  are the addresses of the names under which the host sees these six variables, in the same
  order.
\<close>

theorem exports_six_shared_variables:
  "length shared_variables = 6 \<and> distinct shared_variables \<and>
   list_all (prefix ''ulp_'') shared_variables \<and>
   length petfilter_ulp_symbols = 6 \<and> distinct petfilter_ulp_symbols \<and>
   petfilter_ulp_symbols = map exported_name shared_variables"
  by (simp add: shared_variables_def petfilter_ulp_symbols_def exported_name_def)

subsection \<open>C8: the counter stays below the confirm count\<close>

lemma above_count_confirm_count:
  "ulp_nh3_above_count s < ulp_nh3_confirm_count s \<Longrightarrow> list_all keeps_confirm_count ins \<Longrightarrow>
   ulp_nh3_confirm_count (vars (main s ins)) = ulp_nh3_confirm_count s \<and>
   (Wakeup_main_processor \<in> set (trace (main s ins)) \<longrightarrow>
      ulp_nh3_confirm_count s \<le> ulp_nh3_above_count (vars (main s ins))) \<and>
   (Wakeup_main_processor \<notin> set (trace (main s ins)) \<longrightarrow>
      ulp_nh3_above_count (vars (main s ins)) < ulp_nh3_confirm_count s)"
proof (induction s ins rule: main.induct)
  case (1 s)
  then show ?case by simp
next
  case (2 s w ins)
  from "2.prems"(2) have k: "keeps_confirm_count (Host w)" and rest: "list_all keeps_confirm_count ins"
    by simp_all
  note c = keeps_confirm_count_host [OF k, where s = s]
  show ?case
    using "2.IH" rest "2.prems"(1) by (simp add: c above_count_host_store)
next
  case (3 s raw ins)
  from "3.prems"(2) have rest: "list_all keeps_confirm_count ins" by simp
  have cpos: "0 < ulp_nh3_confirm_count s"
    using "3.prems"(1) by (metis word_gt_0 word_not_simps(1))
  show ?case
  proof (cases "ulp_stop_flag s = 0")
    case False
    with "3.prems" show ?thesis by simp
  next
    case stop: True
    show ?thesis
    proof (cases rule: loop_body_cases [where raw = raw and s = s])
      case fail
      note b = loop_body_fail [OF fail, where s = s]
      show ?thesis
        using "3.IH" [of "loop_body raw s"] stop rest "3.prems"(1)
        by (simp add: main_Sample_run b del: main.simps)
    next
      case below
      note b = loop_body_below [OF below]
      show ?thesis
        using "3.IH" [of "loop_body raw s"] stop rest cpos
        by (simp add: main_Sample_run b del: main.simps)
    next
      case wake
      note b = loop_body_wake [OF wake]
      show ?thesis
        using stop wake(3) by (simp add: main_Sample_halt b del: main.simps)
    next
      case count
      note b = loop_body_count [OF count]
      show ?thesis
        using "3.IH" [of "loop_body raw s"] stop rest count(3)
        by (simp add: main_Sample_run b del: main.simps)
    qed
  qed
qed

text \<open>
  C8. Let a run start with the consecutive-above counter at zero and with a confirm count of
  at least one, and let the host not write the confirm count during the run. Then as long as
  the program has not halted, and so whenever it arrives at the loop condition to start an
  iteration, the counter is strictly below the confirm count. The counter is at or above the
  confirm count only at the end of a run that has signalled the wake; such a run has halted.
\<close>

theorem above_count_below_confirm_count:
  assumes "ulp_nh3_above_count s = 0"
    and "1 \<le> ulp_nh3_confirm_count s"
    and "list_all keeps_confirm_count ins"
  shows "ulp_nh3_confirm_count (vars (main s ins)) = ulp_nh3_confirm_count s \<and>
         (status (main s ins) = Running \<longrightarrow>
            ulp_nh3_above_count (vars (main s ins)) < ulp_nh3_confirm_count (vars (main s ins))) \<and>
         (ulp_nh3_confirm_count (vars (main s ins)) \<le> ulp_nh3_above_count (vars (main s ins)) \<longleftrightarrow>
            Wakeup_main_processor \<in> set (trace (main s ins))) \<and>
         (Wakeup_main_processor \<in> set (trace (main s ins)) \<longrightarrow> status (main s ins) = Halted)"
proof -
  have lt: "ulp_nh3_above_count s < ulp_nh3_confirm_count s"
    using assms(1,2) by (simp add: word_le_nat_alt word_less_nat_alt)
  note inv = above_count_confirm_count [OF lt assms(3)]
  have halt: "Wakeup_main_processor \<in> set (trace (main s ins)) \<Longrightarrow> status (main s ins) = Halted"
    using wake_ends_run [of s ins] by simp
  show ?thesis
  proof (cases "Wakeup_main_processor \<in> set (trace (main s ins))")
    case True
    with inv halt show ?thesis by simp
  next
    case False
    with inv show ?thesis by (simp add: not_le)
  qed
qed

text \<open>
  An instance, from the initial variables (confirm count 3): after two readings above the
  threshold, a failed read and a host write to the threshold the program runs with the
  counter at 2.
\<close>

theorem above_count_below_confirm_count_witness:
  "status (main init_vars [Sample 1500, Sample 1501, Sample (- 1), Host (Set_threshold_adc 9)])
     = Running \<and>
   ulp_nh3_above_count
     (vars (main init_vars [Sample 1500, Sample 1501, Sample (- 1), Host (Set_threshold_adc 9)]))
   < ulp_nh3_confirm_count
     (vars (main init_vars [Sample 1500, Sample 1501, Sample (- 1), Host (Set_threshold_adc 9)]))"
  using above_count_below_confirm_count [of init_vars
      "[Sample 1500, Sample 1501, Sample (- 1), Host (Set_threshold_adc 9)]"]
  by (simp add: run_eval)

subsection \<open>C9: a confirm count of zero, or lowered to the counter\<close>

lemma wake_needs_reading:
  "Wakeup_main_processor \<in> set (trace (main s ins)) \<Longrightarrow>
   \<exists>pre raw post. ins = pre @ Sample raw # post \<and> status (main s pre) = Running \<and>
     ulp_stop_flag (vars (main s pre)) = 0 \<and> 0 \<le> sint raw \<and>
     ulp_nh3_threshold_adc (vars (main s pre)) \<le> raw \<and>
     trace (main s ins) =
       trace (main s pre) @ [Adc_read_channel raw, Wakeup_main_processor, Halt]"
proof (induction s ins rule: main.induct)
  case (1 s)
  then show ?case by simp
next
  case (2 s w ins)
  then obtain pre raw post where
    "ins = pre @ Sample raw # post" "status (main (host_store w s) pre) = Running"
    "ulp_stop_flag (vars (main (host_store w s) pre)) = 0" "0 \<le> sint raw"
    "ulp_nh3_threshold_adc (vars (main (host_store w s) pre)) \<le> raw"
    "trace (main (host_store w s) ins) =
       trace (main (host_store w s) pre) @ [Adc_read_channel raw, Wakeup_main_processor, Halt]"
    by auto
  then have "Host w # ins = (Host w # pre) @ Sample raw # post \<and>
     status (main s (Host w # pre)) = Running \<and>
     ulp_stop_flag (vars (main s (Host w # pre))) = 0 \<and> 0 \<le> sint raw \<and>
     ulp_nh3_threshold_adc (vars (main s (Host w # pre))) \<le> raw \<and>
     trace (main s (Host w # ins)) =
       trace (main s (Host w # pre)) @ [Adc_read_channel raw, Wakeup_main_processor, Halt]"
    by simp
  then show ?case by blast
next
  case (3 s raw ins)
  show ?case
  proof (cases "ulp_stop_flag s = 0")
    case False
    with "3.prems" show ?thesis by simp
  next
    case stop: True
    show ?thesis
    proof (cases "status (loop_body raw s)")
      case Halted
      from loop_body_Halted [OF this] stop Halted
      have "Sample raw # ins = [] @ Sample raw # ins \<and> status (main s []) = Running \<and>
         ulp_stop_flag (vars (main s [])) = 0 \<and> 0 \<le> sint raw \<and>
         ulp_nh3_threshold_adc (vars (main s [])) \<le> raw \<and>
         trace (main s (Sample raw # ins)) =
           trace (main s []) @ [Adc_read_channel raw, Wakeup_main_processor, Halt]"
        by (simp add: main_Sample_halt del: main.simps) simp
      then show ?thesis by blast
    next
      case Running
      note run = main_Sample_run [OF stop Running]
      note quiet = loop_body_Running [OF Running]
      from "3.prems" have "Wakeup_main_processor \<in> set (trace (main (vars (loop_body raw s)) ins))"
        using quiet by (simp add: run del: main.simps)
      with "3.IH" [of "loop_body raw s"] stop Running obtain pre r post where *:
        "ins = pre @ Sample r # post" "status (main (vars (loop_body raw s)) pre) = Running"
        "ulp_stop_flag (vars (main (vars (loop_body raw s)) pre)) = 0" "0 \<le> sint r"
        "ulp_nh3_threshold_adc (vars (main (vars (loop_body raw s)) pre)) \<le> r"
        "trace (main (vars (loop_body raw s)) ins) =
           trace (main (vars (loop_body raw s)) pre) @
           [Adc_read_channel r, Wakeup_main_processor, Halt]"
        by auto
      have "Sample raw # ins = (Sample raw # pre) @ Sample r # post \<and>
         status (main s (Sample raw # pre)) = Running \<and>
         ulp_stop_flag (vars (main s (Sample raw # pre))) = 0 \<and> 0 \<le> sint r \<and>
         ulp_nh3_threshold_adc (vars (main s (Sample raw # pre))) \<le> r \<and>
         trace (main s (Sample raw # ins)) =
           trace (main s (Sample raw # pre)) @ [Adc_read_channel r, Wakeup_main_processor, Halt]"
        using * by (simp add: main_Sample_run [OF stop Running] del: main.simps)
      then show ?thesis by blast
    qed
  qed
qed

lemma wake_after_quiet_reads:
  "ulp_stop_flag u = 0 \<Longrightarrow> ulp_nh3_above_count u \<noteq> - 1 \<Longrightarrow>
   ulp_nh3_confirm_count u \<le> ulp_nh3_above_count u \<or> ulp_nh3_confirm_count u \<le> 1 \<Longrightarrow>
   \<forall>z\<in>set zs. sint z < 0 \<or> (ulp_nh3_confirm_count u \<le> 1 \<and> z < ulp_nh3_threshold_adc u) \<Longrightarrow>
   0 \<le> sint raw \<Longrightarrow> ulp_nh3_threshold_adc u \<le> raw \<Longrightarrow>
   trace (main u (map Sample zs @ [Sample raw])) =
     delayed_reads zs @ [Adc_read_channel raw, Wakeup_main_processor, Halt] \<and>
   status (main u (map Sample zs @ [Sample raw])) = Halted"
proof (induction zs arbitrary: u)
  case Nil
  have "unat (ulp_nh3_confirm_count u) \<le> unat (ulp_nh3_above_count u + 1)"
    using Nil(3) unat_inc [OF Nil(2)] by (auto simp: word_le_nat_alt)
  then have "ulp_nh3_confirm_count u \<le> ulp_nh3_above_count u + 1"
    by (simp only: word_le_nat_alt)
  note b = loop_body_wake [OF Nil(5,6) this]
  show ?case
    using Nil(1) by (simp add: main_Sample_halt b delayed_reads_def del: main.simps)
next
  case (Cons z zs)
  show ?case
  proof (cases "sint z < 0")
    case True
    note b = loop_body_fail [OF True, where s = u]
    have st: "status (loop_body z u) = Running" by (simp add: b)
    have "trace (main u (map Sample zs @ [Sample raw])) =
            delayed_reads zs @ [Adc_read_channel raw, Wakeup_main_processor, Halt] \<and>
          status (main u (map Sample zs @ [Sample raw])) = Halted"
      by (rule Cons.IH) (use Cons.prems in simp_all)
    then show ?thesis
      using main_Sample_run [OF Cons.prems(1) st, of "map Sample zs @ [Sample raw]"]
      by (simp add: b delayed_reads_def del: main.simps)
  next
    case False
    with Cons.prems(4) have c1: "ulp_nh3_confirm_count u \<le> 1"
      and lt: "z < ulp_nh3_threshold_adc u" and nn: "0 \<le> sint z"
      by auto
    note b = loop_body_below [OF nn lt]
    have st: "status (loop_body z u) = Running" by (simp add: b)
    have "trace (main (vars (loop_body z u)) (map Sample zs @ [Sample raw])) =
            delayed_reads zs @ [Adc_read_channel raw, Wakeup_main_processor, Halt] \<and>
          status (main (vars (loop_body z u)) (map Sample zs @ [Sample raw])) = Halted"
      by (rule Cons.IH) (use Cons.prems c1 in \<open>simp_all add: b\<close>)
    then show ?thesis
      using main_Sample_run [OF Cons.prems(1) st, of "map Sample zs @ [Sample raw]"]
      by (simp add: b delayed_reads_def del: main.simps)
  qed
qed

text \<open>
  C9, as amended. Let a run that started with the consecutive-above counter at zero be
  running with the stop flag clear, and let the host then set the confirm count to a value
  \<open>c\<close> that is zero or at most the counter. If the reads that follow fail, or, when \<open>c\<close> is
  at most one, succeed with values below the threshold, then the first successful read at or
  above the threshold after them signals the wake and halts the program. (When \<open>c\<close> is two or
  more, a successful reading below the threshold in between resets the counter, and the
  next reading at or above the threshold need not signal.) In any run whatever, a wake signal
  comes directly after a successful read of a value at or above the threshold.
\<close>

theorem wake_after_lowered_confirm_count:
  assumes "ulp_nh3_above_count s = 0"
    and "status (main s pre) = Running"
    and "ulp_stop_flag (vars (main s pre)) = 0"
    and "c \<le> ulp_nh3_above_count (vars (main s pre))"
    and "\<forall>z\<in>set zs. sint z < 0 \<or> (c \<le> 1 \<and> z < ulp_nh3_threshold_adc (vars (main s pre)))"
    and "0 \<le> sint raw"
    and "ulp_nh3_threshold_adc (vars (main s pre)) \<le> raw"
  shows "trace (main s (pre @ Host (Set_confirm_count c) # map Sample zs @ [Sample raw])) =
           trace (main s pre) @ delayed_reads zs @
           [Adc_read_channel raw, Wakeup_main_processor, Halt] \<and>
         status (main s (pre @ Host (Set_confirm_count c) # map Sample zs @ [Sample raw])) = Halted \<and>
         (Wakeup_main_processor \<in> set (trace (main s ins)) \<longrightarrow>
            (\<exists>before r after. ins = before @ Sample r # after \<and>
               status (main s before) = Running \<and> 0 \<le> sint r \<and>
               ulp_nh3_threshold_adc (vars (main s before)) \<le> r \<and>
               trace (main s ins) =
                 trace (main s before) @ [Adc_read_channel r, Wakeup_main_processor, Halt]))"
proof -
  let ?t = "vars (main s pre)"
  let ?u = "host_store (Set_confirm_count c) ?t"
  have "ulp_nh3_above_count s \<noteq> - 1"
    using assms(1) by simp
  from above_count_not_max [OF this assms(2)]
  have nomax: "ulp_nh3_above_count ?u \<noteq> - 1"
    by simp
  have "trace (main ?u (map Sample zs @ [Sample raw])) =
          delayed_reads zs @ [Adc_read_channel raw, Wakeup_main_processor, Halt] \<and>
        status (main ?u (map Sample zs @ [Sample raw])) = Halted"
    by (rule wake_after_quiet_reads [OF _ nomax]) (use assms in simp_all)
  then have first: "trace (main s (pre @ Host (Set_confirm_count c) # map Sample zs @ [Sample raw])) =
           trace (main s pre) @ delayed_reads zs @
           [Adc_read_channel raw, Wakeup_main_processor, Halt] \<and>
         status (main s (pre @ Host (Set_confirm_count c) # map Sample zs @ [Sample raw])) = Halted"
    using assms(2) by (simp add: main_append [of s pre] del: main.simps) simp
  have second: "Wakeup_main_processor \<in> set (trace (main s ins)) \<longrightarrow>
            (\<exists>before r after. ins = before @ Sample r # after \<and>
               status (main s before) = Running \<and> 0 \<le> sint r \<and>
               ulp_nh3_threshold_adc (vars (main s before)) \<le> r \<and>
               trace (main s ins) =
                 trace (main s before) @ [Adc_read_channel r, Wakeup_main_processor, Halt])"
    using wake_needs_reading [of s ins] by blast
  from first second show ?thesis by simp
qed

text \<open>
  Two instances, from the initial variables. After one reading above the threshold the host
  sets the confirm count to 1: a failed read later, the next reading at the threshold
  signals. The host sets the confirm count to 0 at once: after a reading below the threshold
  and a failed read, the next reading at the threshold signals.
\<close>

theorem wake_after_lowered_confirm_count_witness:
  "trace (main init_vars
     ([Sample 1600] @ Host (Set_confirm_count 1) # map Sample [- 1] @ [Sample 1500])) =
     [Adc_read_channel 1600, Delay_us SAMPLE_INTERVAL_US,
      Adc_read_channel (- 1), Delay_us SAMPLE_INTERVAL_US,
      Adc_read_channel 1500, Wakeup_main_processor, Halt] \<and>
   trace (main init_vars
     ([] @ Host (Set_confirm_count 0) # map Sample [3, - 1] @ [Sample 1500])) =
     [Adc_read_channel 3, Delay_us SAMPLE_INTERVAL_US,
      Adc_read_channel (- 1), Delay_us SAMPLE_INTERVAL_US,
      Adc_read_channel 1500, Wakeup_main_processor, Halt]"
  using wake_after_lowered_confirm_count [of init_vars "[Sample 1600]" 1 "[- 1]" 1500]
    wake_after_lowered_confirm_count [of init_vars "[]" 0 "[3, - 1]" 1500]
  by (simp add: run_eval delayed_reads_def)

text \<open>
  C9 as it is written fails when the lowered confirm count is two or more and a reading
  below the threshold comes first. From the initial variables, two readings of 1500 bring
  the counter to 2 and the host lowers the confirm count to 2; a reading of 0 resets the
  counter, and the next reading at the threshold, 1500, does not signal: the program runs on.
\<close>

theorem wake_after_lowered_confirm_count_counterexample:
  "ulp_nh3_above_count (vars (main init_vars [Sample 1500, Sample 1500])) = 2 \<and>
   status (main init_vars [Sample 1500, Sample 1500]) = Running \<and>
   Wakeup_main_processor \<notin> set (trace (main init_vars
     [Sample 1500, Sample 1500, Host (Set_confirm_count 2), Sample 0, Sample 1500])) \<and>
   status (main init_vars
     [Sample 1500, Sample 1500, Host (Set_confirm_count 2), Sample 0, Sample 1500]) = Running"
  by (simp add: run_eval)

subsection \<open>C10: the last reading\<close>

lemma last_reading_host_store:
  "ulp_nh3_last_reading (host_store w s) = ulp_nh3_last_reading s"
  by (cases w) simp_all

lemma last_reading_loop_body:
  "ulp_nh3_last_reading (vars (loop_body raw s)) =
     (if sint raw < 0 then ulp_nh3_last_reading s else raw)"
  by (simp add: loop_body_def Let_def)

lemma last_reading_main:
  "ulp_nh3_last_reading (vars (main s ins)) =
     (if readings (trace (main s ins)) = [] then ulp_nh3_last_reading s
      else last (readings (trace (main s ins))))"
proof (induction s ins rule: main.induct)
  case (1 s)
  show ?case by simp
next
  case (2 s w ins)
  then show ?case by (simp add: last_reading_host_store)
next
  case (3 s raw ins)
  show ?case
  proof (cases "ulp_stop_flag s = 0")
    case False
    then show ?thesis by simp
  next
    case stop: True
    show ?thesis
    proof (cases "status (loop_body raw s)")
      case Halted
      then show ?thesis
        using stop
        by (simp add: main_Sample_halt last_reading_loop_body readings_loop_body del: main.simps)
    next
      case Running
      with stop have "ulp_nh3_last_reading (vars (main (vars (loop_body raw s)) ins)) =
          (if readings (trace (main (vars (loop_body raw s)) ins)) = []
           then ulp_nh3_last_reading (vars (loop_body raw s))
           else last (readings (trace (main (vars (loop_body raw s)) ins))))"
        using "3.IH" by simp
      then show ?thesis
        using stop Running
        by (simp add: main_Sample_run last_reading_loop_body readings_append readings_loop_body
            del: main.simps)
    qed
  qed
qed

lemma readings_nonneg: "raw \<in> set (readings tr) \<Longrightarrow> 0 \<le> sint raw"
  by (induction tr rule: readings.induct) (auto split: if_splits)

text \<open>
  C10. In every run from the initial variables, \<^verbatim>\<open>ulp_nh3_last_reading\<close> is 0 when no read
  of the run has succeeded and is the value of the most recent successful read otherwise,
  and it is strictly less than \<open>2\<^sup>3\<^sup>1\<close>.
\<close>

theorem last_reading_latest_success:
  "ulp_nh3_last_reading (vars (main init_vars ins)) =
     (if readings (trace (main init_vars ins)) = [] then 0
      else last (readings (trace (main init_vars ins)))) \<and>
   uint (ulp_nh3_last_reading (vars (main init_vars ins))) < 2 ^ 31"
proof (cases "readings (trace (main init_vars ins)) = []")
  case True
  then have "ulp_nh3_last_reading (vars (main init_vars ins)) = 0"
    by (simp add: last_reading_main) (simp add: init_vars_def)
  with True show ?thesis by simp
next
  case False
  then have eq: "ulp_nh3_last_reading (vars (main init_vars ins)) =
      last (readings (trace (main init_vars ins)))"
    by (simp add: last_reading_main)
  have "last (readings (trace (main init_vars ins))) \<in> set (readings (trace (main init_vars ins)))"
    using False by (rule last_in_set)
  then have "uint (last (readings (trace (main init_vars ins)))) < 2 ^ 31"
    by (intro nonneg_bound readings_nonneg)
  with False eq show ?thesis by simp
qed

text \<open>
  An instance: after the readings 1600 and 7 and a failed read that returned \<open>-5\<close>, the
  variable holds 7.
\<close>

theorem last_reading_latest_success_witness:
  "ulp_nh3_last_reading (vars (main init_vars [Sample 1600, Sample 7, Sample (- 5)])) = 7"
  using last_reading_latest_success [of "[Sample 1600, Sample 7, Sample (- 5)]"]
  by (simp add: run_eval)

end
